theory Spec2Isabelle
  imports Main "HOL-Library.Sublist"
begin

section \<open>The paginated video-id loop of the YouTube data scraper\<close>

text \<open>
  The development embeds lines 18 to 38 of \<^verbatim>\<open>Youtube Data Scraper.py\<close>:
  \<^verbatim>\<open>
  video_ids = []
  next_page_token = None
  while True:
      playlistitems_response = youtube.playlistItems().list(part='contentDetails',
                                   playlistId=playlist_id,
                                   pageToken=next_page_token).execute()
      for item in playlistitems_response['items']:
          video_ids.append(item['contentDetails']['videoId'])
      next_page_token = playlistitems_response.get('nextPageToken')
      if not next_page_token:
          break
  print(video_ids)
  \<close>
\<close>

subsection \<open>Responses\<close>

text \<open>
  A response is the dictionary returned by \<^verbatim>\<open>execute()\<close>. Only the keys the loop reads
  are kept; a key that may be missing is an option, so that a subscript on a missing
  key is a visible \<^verbatim>\<open>KeyError\<close> and \<^verbatim>\<open>.get\<close> on a missing key is \<open>None\<close>.
\<close>

datatype content_details = ContentDetails (videoId: "string option")

datatype item = Item (contentDetails: "content_details option")

datatype response = Response (items: "item list option") (nextPageToken: "string option")

text \<open>
  The exceptions the loop can let escape: whatever \<^verbatim>\<open>execute()\<close> raised, and the
  \<^verbatim>\<open>KeyError\<close> of a subscript on a missing key (with the key).
\<close>

datatype 'e exn = ExecuteError 'e | KeyError string

text \<open>
  The listing capability is the request
  \<^verbatim>\<open>youtube.playlistItems().list(part=.., playlistId=.., pageToken=t).execute()\<close>.
  It talks to a remote service, so it takes the state of that service and returns the
  new one together with its reply: a response, or the exception it raised.
\<close>

type_synonym ('w, 'e) list_page = "'w \<Rightarrow> string option \<Rightarrow> ('e + response) \<times> 'w"

subsection \<open>The variables of the script\<close>

text \<open>
  \<open>video_ids\<close> and \<open>next_page_token\<close> are the two variables of the script, \<open>world\<close> is
  the state of the remote service, and \<open>calls\<close> records every call of the capability
  in order: the token passed and the reply received.
\<close>

record ('w, 'e) frame =
  video_ids :: "string list"
  next_page_token :: "string option"
  world :: 'w
  calls :: "(string option \<times> ('e + response)) list"

text \<open>Python's \<^verbatim>\<open>not next_page_token\<close>: true of \<^verbatim>\<open>None\<close> and of the empty string.\<close>

definition py_not :: "string option \<Rightarrow> bool" where
  "py_not t = (case t of None \<Rightarrow> True | Some s \<Rightarrow> s = [])"

text \<open>
  The \<^verbatim>\<open>for\<close> loop over the items appends to \<open>video_ids\<close> (the argument \<open>ids\<close>) in
  place, so an exception in the middle leaves the identifiers appended so far in the
  variable.
\<close>

fun for_items :: "item list \<Rightarrow> string list \<Rightarrow> string list \<times> 'e exn option" where
  "for_items [] ids = (ids, None)"
| "for_items (item # rest) ids =
     (case contentDetails item of
        None \<Rightarrow> (ids, Some (KeyError ''contentDetails''))
      | Some cd \<Rightarrow>
          (case videoId cd of
             None \<Rightarrow> (ids, Some (KeyError ''videoId''))
           | Some v \<Rightarrow> for_items rest (ids @ [v])))"

text \<open>How one pass through the body of \<^verbatim>\<open>while True\<close> ends.\<close>

datatype ('w, 'e) flow =
    Continue "('w, 'e) frame"
  | Break "('w, 'e) frame"
  | Raise "'e exn" "('w, 'e) frame"

definition body :: "('w, 'e) list_page \<Rightarrow> ('w, 'e) frame \<Rightarrow> ('w, 'e) flow" where
  "body list_page s =
     (case list_page (world s) (next_page_token s) of
        (reply, w') \<Rightarrow>
          let s1 = s\<lparr>world := w', calls := calls s @ [(next_page_token s, reply)]\<rparr> in
          (case reply of
             Inl e \<Rightarrow> Raise (ExecuteError e) s1
           | Inr playlistitems_response \<Rightarrow>
               (case items playlistitems_response of
                  None \<Rightarrow> Raise (KeyError ''items'') s1
                | Some its \<Rightarrow>
                    (case for_items its (video_ids s1) of
                       (ids, Some e) \<Rightarrow> Raise e (s1\<lparr>video_ids := ids\<rparr>)
                     | (ids, None) \<Rightarrow>
                         let s2 = s1\<lparr>video_ids := ids,
                                     next_page_token := nextPageToken playlistitems_response\<rparr>
                         in if py_not (next_page_token s2) then Break s2 else Continue s2))))"

text \<open>
  How the script ends, when it does: it reaches \<^verbatim>\<open>print(video_ids)\<close>, or an
  exception escapes and nothing is printed.
\<close>

datatype ('w, 'e) ending =
    Finished "('w, 'e) frame"
  | Uncaught "'e exn" "('w, 'e) frame"

text \<open>\<^verbatim>\<open>while True\<close> has no bound: a run that never breaks is the value \<open>None\<close>.\<close>

partial_function (option)
  while_True :: "('w, 'e) list_page \<Rightarrow> ('w, 'e) frame \<Rightarrow> ('w, 'e) ending option"
where
  "while_True list_page s =
     (case body list_page s of
        Continue s' \<Rightarrow> while_True list_page s'
      | Break s' \<Rightarrow> Some (Finished s')
      | Raise e s' \<Rightarrow> Some (Uncaught e s'))"

definition initial :: "'w \<Rightarrow> ('w, 'e) frame" where
  "initial w = \<lparr>video_ids = [], next_page_token = None, world = w, calls = []\<rparr>"

definition collect :: "('w, 'e) list_page \<Rightarrow> 'w \<Rightarrow> ('w, 'e) ending option" where
  "collect list_page w = while_True list_page (initial w)"


fun last_frame :: "('w, 'e) ending \<Rightarrow> ('w, 'e) frame" where
  "last_frame (Finished s) = s"
| "last_frame (Uncaught e s) = s"

text \<open>
  What can be seen of a run that ended: how it ended, with the list printed or with
  the exception, and the calls it made.
\<close>

fun result :: "('w, 'e) ending \<Rightarrow> 'e exn + string list" where
  "result (Finished s) = Inr (video_ids s)"
| "result (Uncaught e s) = Inl e"

definition observed ::
  "('w, 'e) ending \<Rightarrow> ('e exn + string list) \<times> (string option \<times> ('e + response)) list" where
  "observed e = (result e, calls (last_frame e))"

text \<open>Two frames that differ at most in the state of the remote service.\<close>

definition same_view :: "('v, 'e) frame \<Rightarrow> ('w, 'e) frame \<Rightarrow> bool" where
  "same_view s1 s2 \<longleftrightarrow>
     video_ids s1 = video_ids s2 \<and> next_page_token s1 = next_page_token s2 \<and> calls s1 = calls s2"

subsection \<open>Pages and upstreams\<close>

text \<open>
  A page is a response in which every key the loop reads is present: its items carry
  the identifiers \<open>page_items\<close>, and \<open>page_token\<close> is what \<^verbatim>\<open>.get('nextPageToken')\<close>
  returns (\<open>None\<close> when the key is missing). \<open>response_of\<close> is the dictionary of a page.
\<close>

datatype page = Page (page_items: "string list") (page_token: "string option")

definition item_of :: "string \<Rightarrow> item" where
  "item_of v = Item (Some (ContentDetails (Some v)))"

definition response_of :: "page \<Rightarrow> response" where
  "response_of p = Response (Some (map item_of (page_items p))) (page_token p)"

text \<open>
  \<open>answers list_page w t replies\<close>: called in state \<open>w\<close> with token \<open>t\<close>, and then each
  time with the token of its previous response, the capability gives these replies in
  this order. An exception is the last reply of such a chain.
\<close>

fun answers :: "('w, 'e) list_page \<Rightarrow> 'w \<Rightarrow> string option \<Rightarrow> ('e + response) list \<Rightarrow> bool" where
  "answers list_page w t [] = True"
| "answers list_page w t (reply # rest) =
     (case list_page w t of
        (reply', w') \<Rightarrow>
          reply' = reply \<and>
          (case reply of
             Inr r \<Rightarrow> answers list_page w' (nextPageToken r) rest
           | Inl e \<Rightarrow> rest = []))"

definition serving :: "page list \<Rightarrow> ('e + response) list" where
  "serving pages = map (\<lambda>p. Inr (response_of p)) pages"

subsection \<open>Passes of the loop\<close>

text \<open>
  \<open>frame_at list_page n s\<close> is the frame in which pass \<open>n + 1\<close> of the loop starts, when
  the loop started in \<open>s\<close> gets that far: the first \<open>n\<close> passes all went on.
\<close>

fun frame_at :: "('w, 'e) list_page \<Rightarrow> nat \<Rightarrow> ('w, 'e) frame \<Rightarrow> ('w, 'e) frame option" where
  "frame_at list_page 0 s = Some s"
| "frame_at list_page (Suc n) s =
     (case body list_page s of
        Continue s' \<Rightarrow> frame_at list_page n s'
      | Break s' \<Rightarrow> None
      | Raise e s' \<Rightarrow> None)"

text \<open>The frame a pass leaves, however it ends.\<close>

fun flow_frame :: "('w, 'e) flow \<Rightarrow> ('w, 'e) frame" where
  "flow_frame (Continue s) = s"
| "flow_frame (Break s) = s"
| "flow_frame (Raise e s) = s"

fun ending_of :: "('w, 'e) flow \<Rightarrow> ('w, 'e) ending option" where
  "ending_of (Continue s) = None"
| "ending_of (Break s) = Some (Finished s)"
| "ending_of (Raise e s) = Some (Uncaught e s)"



text \<open>
  Upstreams to run the loop on. \<open>replay e\<close> hands out a fixed list of replies, one
  per call whatever the token, and raises \<open>e\<close> once the list is used up; \<open>always reply\<close>
  gives the same reply to every call.
\<close>

fun replay :: "'e \<Rightarrow> ('e + response) list \<Rightarrow> string option \<Rightarrow> ('e + response) \<times> ('e + response) list" where
  "replay e [] t = (Inl e, [])"
| "replay e (reply # rest) t = (reply, rest)"

definition always :: "('e + response) \<Rightarrow> 'w \<Rightarrow> string option \<Rightarrow> ('e + response) \<times> 'w" where
  "always reply w t = (reply, w)"

text \<open>
  \<open>counting f\<close> replies \<open>f t\<close> to a call with token \<open>t\<close>, whatever came before, and
  counts its calls.
\<close>

definition counting :: "(string option \<Rightarrow> 'e + response) \<Rightarrow> nat \<Rightarrow> string option \<Rightarrow> ('e + response) \<times> nat" where
  "counting f n t = (f t, Suc n)"

text \<open>The scenario of two pages as a function of the token passed.\<close>

definition two_pages :: "string option \<Rightarrow> string + response" where
  "two_pages t =
     (if t = None then Inr (response_of (Page [''a'', ''b''] (Some ''t1'')))
      else Inr (response_of (Page [''c''] None)))"

section \<open>Properties\<close>

subsection \<open>One pass, and the loop as a chain of passes\<close>

lemma for_items_item_of: "for_items (map item_of ids) acc = (acc @ ids, None)"
  by (induction ids arbitrary: acc) (simp_all add: item_of_def)

lemma for_items_None:
  "for_items its acc = (ids', None :: 'e exn option) \<Longrightarrow>
     \<exists>ids. its = map item_of ids \<and> ids' = acc @ ids"
proof (induction its arbitrary: acc)
  case Nil
  then show ?case by simp
next
  case (Cons it its)
  from Cons.prems obtain cd v where cd: "contentDetails it = Some cd" and v: "videoId cd = Some v"
    and rest: "for_items its (acc @ [v]) = (ids', None :: 'e exn option)"
    by (auto split: option.splits)
  from Cons.IH [OF rest] obtain ids where "its = map item_of ids" "ids' = (acc @ [v]) @ ids"
    by blast
  moreover have "it = item_of v"
    using cd v by (cases it; cases cd) (simp add: item_of_def)
  ultimately have "it # its = map item_of (v # ids) \<and> ids' = acc @ (v # ids)"
    by simp
  then show ?case by (rule exI [of _ "v # ids"])
qed


lemma body_page:
  assumes "list_page (world s) (next_page_token s) = (Inr (response_of p), w')"
  shows "body list_page s =
     (if py_not (page_token p)
      then Break (s\<lparr>video_ids := video_ids s @ page_items p, next_page_token := page_token p,
             world := w', calls := calls s @ [(next_page_token s, Inr (response_of p))]\<rparr>)
      else Continue (s\<lparr>video_ids := video_ids s @ page_items p, next_page_token := page_token p,
             world := w', calls := calls s @ [(next_page_token s, Inr (response_of p))]\<rparr>))"
  using assms by (simp add: body_def response_of_def for_items_item_of Let_def)


lemma while_True_ending:
  "ending_of (body list_page s) = Some e \<Longrightarrow> while_True list_page s = Some e"
  by (subst while_True.simps) (auto split: flow.splits)

lemma while_True_Continue:
  "body list_page s = Continue s' \<Longrightarrow> while_True list_page s = while_True list_page s'"
  by (subst while_True.simps) simp

lemma while_True_frame_at:
  "frame_at list_page n s = Some s' \<Longrightarrow> while_True list_page s = while_True list_page s'"
proof (induction n arbitrary: s)
  case 0
  then show ?case by simp
next
  case (Suc n)
  then obtain s1 where b: "body list_page s = Continue s1" and f: "frame_at list_page n s1 = Some s'"
    by (auto split: flow.splits)
  show ?case using while_True_Continue [OF b] Suc.IH [OF f] by simp
qed

lemma while_True_Some_D:
  "while_True list_page s = Some e \<Longrightarrow>
     \<exists>n s'. frame_at list_page n s = Some s' \<and> ending_of (body list_page s') = Some e"
proof (induction list_page s e rule: while_True.raw_induct [rotated 1, consumes 1])
  case (1 wt list_page s e)
  show ?case
  proof (cases "body list_page s")
    case (Continue s1)
    with 1(2) have "wt list_page s1 = Some e" by simp
    from 1(1) [OF this] obtain n s' where "frame_at list_page n s1 = Some s'"
      and "ending_of (body list_page s') = Some e" by blast
    with Continue have "frame_at list_page (Suc n) s = Some s'" by simp
    with \<open>ending_of (body list_page s') = Some e\<close> show ?thesis by blast
  next
    case (Break s1)
    with 1 have "frame_at list_page 0 s = Some s \<and> ending_of (body list_page s) = Some e" by simp
    then show ?thesis by blast
  next
    case (Raise x s1)
    with 1 have "frame_at list_page 0 s = Some s \<and> ending_of (body list_page s) = Some e" by simp
    then show ?thesis by blast
  qed
qed

lemma while_True_Some_iff:
  "while_True list_page s = Some e \<longleftrightarrow>
     (\<exists>n s'. frame_at list_page n s = Some s' \<and> ending_of (body list_page s') = Some e)"
  using while_True_Some_D while_True_frame_at while_True_ending by metis

subsection \<open>A chain of pages\<close>

lemma answers_Cons_page:
  "answers list_page w t (Inr r # rest) \<Longrightarrow>
     \<exists>w'. list_page w t = (Inr r, w') \<and> answers list_page w' (nextPageToken r) rest"
  by (cases "list_page w t") simp

lemma frame_at_serving:
  assumes "answers list_page (world s) (next_page_token s) (serving pages @ rest)"
    and "\<forall>p\<in>set pages. \<not> py_not (page_token p)"
  shows "\<exists>s'. frame_at list_page (length pages) s = Some s'
           \<and> video_ids s' = video_ids s @ concat (map page_items pages)
           \<and> map snd (calls s') = map snd (calls s) @ serving pages
           \<and> next_page_token s' = (if pages = [] then next_page_token s else page_token (last pages))
           \<and> answers list_page (world s') (next_page_token s') rest"
  using assms
proof (induction pages arbitrary: s)
  case Nil
  then show ?case by (simp add: serving_def)
next
  case (Cons p pages)
  from Cons.prems(1) obtain w' where
    lp: "list_page (world s) (next_page_token s) = (Inr (response_of p), w')"
    and rest: "answers list_page w' (page_token p) (serving pages @ rest)"
    using answers_Cons_page [of list_page "world s" "next_page_token s" "response_of p" "serving pages @ rest"]
    by (auto simp: serving_def response_of_def)
  define s1 where "s1 = s\<lparr>video_ids := video_ids s @ page_items p, next_page_token := page_token p,
             world := w', calls := calls s @ [(next_page_token s, Inr (response_of p))]\<rparr>"
  have b: "body list_page s = Continue s1"
    using body_page [of list_page s p w', OF lp] Cons.prems(2) by (simp add: s1_def)
  have "answers list_page (world s1) (next_page_token s1) (serving pages @ rest)"
    using rest by (simp add: s1_def)
  moreover have "\<forall>p\<in>set pages. \<not> py_not (page_token p)"
    using Cons.prems(2) by simp
  ultimately obtain s' where f: "frame_at list_page (length pages) s1 = Some s'"
    and v: "video_ids s' = video_ids s1 @ concat (map page_items pages)"
    and c: "map snd (calls s') = map snd (calls s1) @ serving pages"
    and t: "next_page_token s' = (if pages = [] then next_page_token s1 else page_token (last pages))"
    and a: "answers list_page (world s') (next_page_token s') rest"
    using Cons.IH [of s1] by blast
  have "frame_at list_page (length (p # pages)) s = Some s'"
    using b f by simp
  moreover have "video_ids s' = video_ids s @ concat (map page_items (p # pages))"
    using v by (simp add: s1_def)
  moreover have "map snd (calls s') = map snd (calls s) @ serving (p # pages)"
    using c by (simp add: s1_def serving_def)
  moreover have "next_page_token s' = (if p # pages = [] then next_page_token s else page_token (last (p # pages)))"
    using t by (simp add: s1_def)
  ultimately show ?case using a by blast
qed

lemma body_replay_page:
  "world s = Inr (response_of p) # rest \<Longrightarrow>
   body (replay e) s =
     (if py_not (page_token p)
      then Break (s\<lparr>video_ids := video_ids s @ page_items p, next_page_token := page_token p,
             world := rest, calls := calls s @ [(next_page_token s, Inr (response_of p))]\<rparr>)
      else Continue (s\<lparr>video_ids := video_ids s @ page_items p, next_page_token := page_token p,
             world := rest, calls := calls s @ [(next_page_token s, Inr (response_of p))]\<rparr>))"
  by (rule body_page) simp

lemma body_always:
  "body (always (Inr (response_of p))) s =
     (if py_not (page_token p)
      then Break (s\<lparr>video_ids := video_ids s @ page_items p, next_page_token := page_token p,
             world := world s, calls := calls s @ [(next_page_token s, Inr (response_of p))]\<rparr>)
      else Continue (s\<lparr>video_ids := video_ids s @ page_items p, next_page_token := page_token p,
             world := world s, calls := calls s @ [(next_page_token s, Inr (response_of p))]\<rparr>))"
  by (rule body_page) (simp add: always_def)

subsection \<open>What a pass that went on, or broke, has seen\<close>

lemma body_Continue_D:
  assumes "body list_page s = Continue s'"
  shows "\<exists>p w'. list_page (world s) (next_page_token s) = (Inr (response_of p), w')
           \<and> \<not> py_not (page_token p)
           \<and> s' = s\<lparr>video_ids := video_ids s @ page_items p, next_page_token := page_token p,
                 world := w', calls := calls s @ [(next_page_token s, Inr (response_of p))]\<rparr>"
proof -
  obtain reply w' where lp: "list_page (world s) (next_page_token s) = (reply, w')"
    by (cases "list_page (world s) (next_page_token s)")
  with assms obtain r its where reply: "reply = Inr r" and its: "items r = Some its"
    by (auto simp: body_def Let_def split: sum.splits option.splits)
  obtain ids' x where fi: "for_items its (video_ids s) = (ids', x :: 'b exn option)"
    by (cases "for_items its (video_ids s) :: string list \<times> 'b exn option")
  with assms lp reply its have x: "x = None" and t: "\<not> py_not (nextPageToken r)"
    and s': "s' = s\<lparr>video_ids := ids', next_page_token := nextPageToken r,
                 world := w', calls := calls s @ [(next_page_token s, Inr r)]\<rparr>"
    by (auto simp: body_def Let_def split: option.splits if_splits)
  from for_items_None [of its "video_ids s" ids'] fi x obtain ids where
    ids: "its = map item_of ids" "ids' = video_ids s @ ids" by blast
  have r: "r = response_of (Page ids (nextPageToken r))"
    using its ids(1) by (cases r) (simp add: response_of_def)
  have "list_page (world s) (next_page_token s) = (Inr (response_of (Page ids (nextPageToken r))), w')
      \<and> \<not> py_not (page_token (Page ids (nextPageToken r)))
      \<and> s' = s\<lparr>video_ids := video_ids s @ page_items (Page ids (nextPageToken r)),
            next_page_token := page_token (Page ids (nextPageToken r)),
            world := w', calls := calls s @ [(next_page_token s, Inr (response_of (Page ids (nextPageToken r))))]\<rparr>"
    using lp reply t s' ids(2) r by simp
  then show ?thesis by blast
qed

lemma body_Break_D:
  assumes "body list_page s = Break s'"
  shows "\<exists>p w'. list_page (world s) (next_page_token s) = (Inr (response_of p), w')
           \<and> py_not (page_token p)
           \<and> s' = s\<lparr>video_ids := video_ids s @ page_items p, next_page_token := page_token p,
                 world := w', calls := calls s @ [(next_page_token s, Inr (response_of p))]\<rparr>"
proof -
  obtain reply w' where lp: "list_page (world s) (next_page_token s) = (reply, w')"
    by (cases "list_page (world s) (next_page_token s)")
  with assms obtain r its where reply: "reply = Inr r" and its: "items r = Some its"
    by (auto simp: body_def Let_def split: sum.splits option.splits)
  obtain ids' x where fi: "for_items its (video_ids s) = (ids', x :: 'b exn option)"
    by (cases "for_items its (video_ids s) :: string list \<times> 'b exn option")
  with assms lp reply its have x: "x = None" and t: "py_not (nextPageToken r)"
    and s': "s' = s\<lparr>video_ids := ids', next_page_token := nextPageToken r,
                 world := w', calls := calls s @ [(next_page_token s, Inr r)]\<rparr>"
    by (auto simp: body_def Let_def split: option.splits if_splits)
  from for_items_None [of its "video_ids s" ids'] fi x obtain ids where
    ids: "its = map item_of ids" "ids' = video_ids s @ ids" by blast
  have r: "r = response_of (Page ids (nextPageToken r))"
    using its ids(1) by (cases r) (simp add: response_of_def)
  have "list_page (world s) (next_page_token s) = (Inr (response_of (Page ids (nextPageToken r))), w')
      \<and> py_not (page_token (Page ids (nextPageToken r)))
      \<and> s' = s\<lparr>video_ids := video_ids s @ page_items (Page ids (nextPageToken r)),
            next_page_token := page_token (Page ids (nextPageToken r)),
            world := w', calls := calls s @ [(next_page_token s, Inr (response_of (Page ids (nextPageToken r))))]\<rparr>"
    using lp reply t s' ids(2) r by simp
  then show ?thesis by blast
qed

lemma answers_page_I:
  "list_page w t = (Inr r, w') \<Longrightarrow> answers list_page w' (nextPageToken r) rest \<Longrightarrow>
     answers list_page w t (Inr r # rest)"
  by simp

lemma frame_at_pages:
  assumes "frame_at list_page n s = Some s'"
  shows "\<exists>pages. length pages = n
           \<and> (\<forall>p\<in>set pages. \<not> py_not (page_token p))
           \<and> video_ids s' = video_ids s @ concat (map page_items pages)
           \<and> map snd (calls s') = map snd (calls s) @ serving pages
           \<and> (\<forall>rest. answers list_page (world s') (next_page_token s') rest \<longrightarrow>
                 answers list_page (world s) (next_page_token s) (serving pages @ rest))"
  using assms
proof (induction n arbitrary: s)
  case 0
  then have "length ([] :: page list) = 0
           \<and> (\<forall>p\<in>set ([] :: page list). \<not> py_not (page_token p))
           \<and> video_ids s' = video_ids s @ concat (map page_items [])
           \<and> map snd (calls s') = map snd (calls s) @ serving []
           \<and> (\<forall>rest. answers list_page (world s') (next_page_token s') rest \<longrightarrow>
                 answers list_page (world s) (next_page_token s) (serving [] @ rest))"
    by (simp add: serving_def)
  then show ?case by blast
next
  case (Suc n)
  from Suc.prems obtain s1 where b: "body list_page s = Continue s1"
    and f: "frame_at list_page n s1 = Some s'"
    by (auto split: flow.splits)
  from body_Continue_D [OF b] obtain p w' where
    lp: "list_page (world s) (next_page_token s) = (Inr (response_of p), w')"
    and t: "\<not> py_not (page_token p)"
    and s1: "s1 = s\<lparr>video_ids := video_ids s @ page_items p, next_page_token := page_token p,
                 world := w', calls := calls s @ [(next_page_token s, Inr (response_of p))]\<rparr>"
    by blast
  from Suc.IH [OF f] obtain pages where
    l: "length pages = n"
    and ts: "\<forall>p\<in>set pages. \<not> py_not (page_token p)"
    and v: "video_ids s' = video_ids s1 @ concat (map page_items pages)"
    and c: "map snd (calls s') = map snd (calls s1) @ serving pages"
    and a: "\<forall>rest. answers list_page (world s') (next_page_token s') rest \<longrightarrow>
                 answers list_page (world s1) (next_page_token s1) (serving pages @ rest)"
    by blast
  have a': "\<forall>rest. answers list_page (world s') (next_page_token s') rest \<longrightarrow>
                 answers list_page (world s) (next_page_token s) (serving (p # pages) @ rest)"
  proof (intro allI impI)
    fix rest
    assume "answers list_page (world s') (next_page_token s') rest"
    with a have "answers list_page (world s1) (next_page_token s1) (serving pages @ rest)"
      by blast
    then have "answers list_page w' (nextPageToken (response_of p)) (serving pages @ rest)"
      by (simp add: s1 response_of_def)
    from answers_page_I [OF lp this]
    show "answers list_page (world s) (next_page_token s) (serving (p # pages) @ rest)"
      by (simp add: serving_def)
  qed
  have "length (p # pages) = Suc n
           \<and> (\<forall>q\<in>set (p # pages). \<not> py_not (page_token q))
           \<and> video_ids s' = video_ids s @ concat (map page_items (p # pages))
           \<and> map snd (calls s') = map snd (calls s) @ serving (p # pages)"
    using l ts t v c by (simp add: s1 serving_def)
  with a' show ?case by blast
qed

subsection \<open>Runs that finish and runs that do not\<close>

lemma finished_pages:
  assumes "while_True list_page s0 = Some (Finished s)"
  shows "\<exists>pages. pages \<noteq> []
           \<and> (\<forall>p\<in>set (butlast pages). \<not> py_not (page_token p))
           \<and> py_not (page_token (last pages))
           \<and> answers list_page (world s0) (next_page_token s0) (serving pages)
           \<and> video_ids s = video_ids s0 @ concat (map page_items pages)
           \<and> map snd (calls s) = map snd (calls s0) @ serving pages"
proof -
  from while_True_Some_D [OF assms] obtain n s' where
    f: "frame_at list_page n s0 = Some s'" and e: "ending_of (body list_page s') = Some (Finished s)"
    by blast
  from e have b: "body list_page s' = Break s"
    by (cases "body list_page s'") simp_all
  from body_Break_D [OF b] obtain p w' where
    lp: "list_page (world s') (next_page_token s') = (Inr (response_of p), w')"
    and t: "py_not (page_token p)"
    and s: "s = s'\<lparr>video_ids := video_ids s' @ page_items p, next_page_token := page_token p,
                 world := w', calls := calls s' @ [(next_page_token s', Inr (response_of p))]\<rparr>"
    by blast
  from frame_at_pages [OF f] obtain pages where
    ts: "\<forall>p\<in>set pages. \<not> py_not (page_token p)"
    and v: "video_ids s' = video_ids s0 @ concat (map page_items pages)"
    and c: "map snd (calls s') = map snd (calls s0) @ serving pages"
    and a: "\<forall>rest. answers list_page (world s') (next_page_token s') rest \<longrightarrow>
                 answers list_page (world s0) (next_page_token s0) (serving pages @ rest)"
    by blast
  have "answers list_page (world s') (next_page_token s') [Inr (response_of p)]"
    using lp by simp
  with a have "answers list_page (world s0) (next_page_token s0) (serving pages @ [Inr (response_of p)])"
    by blast
  then have "answers list_page (world s0) (next_page_token s0) (serving (pages @ [p]))"
    by (simp add: serving_def)
  moreover have "video_ids s = video_ids s0 @ concat (map page_items (pages @ [p]))"
    using v by (simp add: s)
  moreover have "map snd (calls s) = map snd (calls s0) @ serving (pages @ [p])"
    using c by (simp add: s serving_def)
  moreover have "\<forall>q\<in>set (butlast (pages @ [p])). \<not> py_not (page_token q)"
    using ts by simp
  moreover have "py_not (page_token (last (pages @ [p])))"
    using t by simp
  moreover have "pages @ [p] \<noteq> []" by simp
  ultimately show ?thesis by blast
qed

lemma answers_finishes:
  assumes "pages \<noteq> []"
    and "answers list_page (world s0) (next_page_token s0) (serving pages)"
    and "py_not (page_token (last pages))"
  shows "\<exists>s. while_True list_page s0 = Some (Finished s)"
  using assms
proof (induction pages arbitrary: s0)
  case Nil
  then show ?case by simp
next
  case (Cons p ps)
  from Cons.prems(2) obtain w' where
    lp: "list_page (world s0) (next_page_token s0) = (Inr (response_of p), w')"
    and rest: "answers list_page w' (page_token p) (serving ps)"
    using answers_Cons_page [of list_page "world s0" "next_page_token s0" "response_of p" "serving ps"]
    by (auto simp: serving_def response_of_def)
  define s1 where "s1 = s0\<lparr>video_ids := video_ids s0 @ page_items p, next_page_token := page_token p,
             world := w', calls := calls s0 @ [(next_page_token s0, Inr (response_of p))]\<rparr>"
  show ?case
  proof (cases "py_not (page_token p)")
    case True
    then have "body list_page s0 = Break s1"
      using body_page [of list_page s0 p w', OF lp] by (simp add: s1_def)
    then have "while_True list_page s0 = Some (Finished s1)"
      by (simp add: while_True_ending)
    then show ?thesis by blast
  next
    case False
    then have b: "body list_page s0 = Continue s1"
      using body_page [of list_page s0 p w', OF lp] by (simp add: s1_def)
    from False Cons.prems(3) have ps: "ps \<noteq> []" by auto
    then have "py_not (page_token (last ps))" using Cons.prems(3) by simp
    moreover have "answers list_page (world s1) (next_page_token s1) (serving ps)"
      using rest by (simp add: s1_def)
    ultimately obtain s where "while_True list_page s1 = Some (Finished s)"
      using Cons.IH [OF ps] by blast
    then show ?thesis using while_True_Continue [OF b] by simp
  qed
qed

lemma frame_at_always_token:
  assumes "\<forall>w t. \<exists>p w'. list_page w t = (Inr (response_of p), w') \<and> \<not> py_not (page_token p)"
  shows "\<exists>s'. frame_at list_page n s = Some s' \<and> length (calls s') = length (calls s) + n
           \<and> ending_of (body list_page s') = None"
proof (induction n arbitrary: s)
  case 0
  from assms obtain p w' where
    lp: "list_page (world s) (next_page_token s) = (Inr (response_of p), w')"
    and t: "\<not> py_not (page_token p)" by blast
  from body_page [of list_page s p w', OF lp] t show ?case by simp
next
  case (Suc n)
  from assms obtain p w' where
    lp: "list_page (world s) (next_page_token s) = (Inr (response_of p), w')"
    and t: "\<not> py_not (page_token p)" by blast
  define s1 where "s1 = s\<lparr>video_ids := video_ids s @ page_items p, next_page_token := page_token p,
             world := w', calls := calls s @ [(next_page_token s, Inr (response_of p))]\<rparr>"
  have b: "body list_page s = Continue s1"
    using body_page [of list_page s p w', OF lp] t by (simp add: s1_def)
  from Suc.IH [of s1] obtain s' where "frame_at list_page n s1 = Some s'"
    and "length (calls s') = length (calls s1) + n" and "ending_of (body list_page s') = None"
    by blast
  then have "frame_at list_page (Suc n) s = Some s' \<and> length (calls s') = length (calls s) + Suc n
           \<and> ending_of (body list_page s') = None"
    using b by (simp add: s1_def)
  then show ?case by blast
qed

lemma run_of_pages:
  assumes "pages \<noteq> []"
    and "\<forall>p\<in>set (butlast pages). \<not> py_not (page_token p)"
    and "py_not (page_token (last pages))"
    and "answers list_page w None (serving pages)"
  shows "\<exists>s. collect list_page w = Some (Finished s)
           \<and> video_ids s = concat (map page_items pages)
           \<and> map snd (calls s) = serving pages
           \<and> length (calls s) = length pages"
proof -
  have split: "serving pages = serving (butlast pages) @ [Inr (response_of (last pages))]"
  proof -
    have "pages = butlast pages @ [last pages]" using assms(1) by simp
    then have "serving pages = serving (butlast pages @ [last pages])" by simp
    then show ?thesis by (simp add: serving_def)
  qed
  have "answers list_page (world (initial w)) (next_page_token (initial w)) (serving pages)"
    using assms(4) by (simp add: initial_def)
  then have "answers list_page (world (initial w)) (next_page_token (initial w))
          (serving (butlast pages) @ [Inr (response_of (last pages))])"
    by (simp only: split)
  from frame_at_serving [OF this assms(2)] obtain s' where
    f: "frame_at list_page (length (butlast pages)) (initial w) = Some s'"
    and v: "video_ids s' = concat (map page_items (butlast pages))"
    and c: "map snd (calls s') = serving (butlast pages)"
    and a: "answers list_page (world s') (next_page_token s') [Inr (response_of (last pages))]"
    by (auto simp: initial_def)
  from answers_Cons_page [OF a] obtain w' where
    lp: "list_page (world s') (next_page_token s') = (Inr (response_of (last pages)), w')"
    by blast
  define s where "s = s'\<lparr>video_ids := video_ids s' @ page_items (last pages),
      next_page_token := page_token (last pages), world := w',
      calls := calls s' @ [(next_page_token s', Inr (response_of (last pages)))]\<rparr>"
  have "body list_page s' = Break s"
    using body_page [of list_page s' "last pages" w', OF lp] assms(3) by (simp add: s_def)
  then have "while_True list_page s' = Some (Finished s)"
    by (simp add: while_True_ending)
  then have "collect list_page w = Some (Finished s)"
    using while_True_frame_at [OF f] by (simp add: collect_def)
  moreover have "video_ids s = concat (map page_items (butlast pages @ [last pages]))"
    using v by (simp add: s_def)
  moreover have "map snd (calls s) = serving pages"
    using c by (simp add: s_def split)
  moreover from this have "length (calls s) = length pages"
    by (metis length_map serving_def)
  ultimately show ?thesis using assms(1) by auto
qed

subsection \<open>The log of calls\<close>

lemma body_calls:
  "\<exists>reply. calls (flow_frame (body list_page s)) = calls s @ [(next_page_token s, reply)]"
proof -
  obtain reply w' where lp: "list_page (world s) (next_page_token s) = (reply, w')"
    by (cases "list_page (world s) (next_page_token s)")
  then have "calls (flow_frame (body list_page s)) = calls s @ [(next_page_token s, reply)]"
    by (auto simp: body_def Let_def split: sum.splits option.splits prod.splits)
  then show ?thesis by blast
qed

lemma last_frame_ending_of:
  "ending_of f = Some e \<Longrightarrow> last_frame e = flow_frame f"
  by (cases f) auto




subsection \<open>The replies in the log\<close>

lemma serving_nth:
  "i < length pages \<Longrightarrow> serving pages ! i = Inr (response_of (pages ! i))"
  by (simp add: serving_def)

lemma frame_at_replies:
  assumes "frame_at list_page n (initial w) = Some s"
  shows "\<forall>i < length (calls s). \<exists>p. snd (calls s ! i) = Inr (response_of p) \<and> \<not> py_not (page_token p)"
proof -
  from frame_at_pages [OF assms] obtain pages where
    ts: "\<forall>p\<in>set pages. \<not> py_not (page_token p)"
    and c: "map snd (calls s) = serving pages"
    by (auto simp: initial_def)
  show ?thesis
  proof (intro allI impI)
    fix i assume i: "i < length (calls s)"
    from c have len: "length (calls s) = length pages"
      by (metis length_map serving_def)
    have "snd (calls s ! i) = map snd (calls s) ! i" using i by simp
    also have "\<dots> = Inr (response_of (pages ! i))"
      using c i len by (simp add: serving_nth)
    finally have "snd (calls s ! i) = Inr (response_of (pages ! i))" .
    moreover have "\<not> py_not (page_token (pages ! i))" using ts i len by simp
    ultimately show "\<exists>p. snd (calls s ! i) = Inr (response_of p) \<and> \<not> py_not (page_token p)"
      by blast
  qed
qed

lemma run_replies:
  assumes "frame_at list_page n (initial w) = Some s
           \<or> (\<exists>e. collect list_page w = Some e \<and> s = last_frame e)"
  shows "\<forall>i. Suc i < length (calls s) \<longrightarrow>
           (\<exists>p. snd (calls s ! i) = Inr (response_of p) \<and> \<not> py_not (page_token p))"
  using assms
proof
  assume "frame_at list_page n (initial w) = Some s"
  from frame_at_replies [OF this] show ?thesis by simp
next
  assume "\<exists>e. collect list_page w = Some e \<and> s = last_frame e"
  then obtain e where "while_True list_page (initial w) = Some e" and s: "s = last_frame e"
    by (auto simp: collect_def)
  from while_True_Some_D [OF this(1)] obtain m s' where
    f: "frame_at list_page m (initial w) = Some s'"
    and e: "ending_of (body list_page s') = Some e" by blast
  from body_calls [of list_page s'] obtain reply where
    "calls (flow_frame (body list_page s')) = calls s' @ [(next_page_token s', reply)]" by blast
  with last_frame_ending_of [OF e] s
  have c: "calls s = calls s' @ [(next_page_token s', reply)]" by simp
  show ?thesis
  proof (intro allI impI)
    fix i assume "Suc i < length (calls s)"
    with c have i: "i < length (calls s')" by simp
    with frame_at_replies [OF f] obtain p where
      "snd (calls s' ! i) = Inr (response_of p)" "\<not> py_not (page_token p)" by blast
    with c i show "\<exists>p. snd (calls s ! i) = Inr (response_of p) \<and> \<not> py_not (page_token p)"
      by (auto simp: nth_append)
  qed
qed

lemma count_list_concat:
  "count_list (concat xss) x = (\<Sum>xs\<leftarrow>xss. count_list xs x)"
  by (induction xss) simp_all

subsection \<open>What a run changes\<close>







subsection \<open>Two upstreams with the same replies\<close>

lemma body_same_view:
  assumes "same_view s1 s2"
    and "fst (lp1 (world s1) (next_page_token s1)) = fst (lp2 (world s2) (next_page_token s2))"
  shows "case body lp1 s1 of
           Continue a \<Rightarrow> (\<exists>b. body lp2 s2 = Continue b \<and> same_view a b)
         | Break a \<Rightarrow> (\<exists>b. body lp2 s2 = Break b \<and> same_view a b)
         | Raise x a \<Rightarrow> (\<exists>b. body lp2 s2 = Raise x b \<and> same_view a b)"
proof -
  obtain reply v' where l1: "lp1 (world s1) (next_page_token s1) = (reply, v')"
    by (cases "lp1 (world s1) (next_page_token s1)")
  with assms(2) obtain w' where l2: "lp2 (world s2) (next_page_token s2) = (reply, w')"
    by (cases "lp2 (world s2) (next_page_token s2)") simp
  from assms(1) have eq: "video_ids s1 = video_ids s2" "next_page_token s1 = next_page_token s2"
    "calls s1 = calls s2" by (simp_all add: same_view_def)
  show ?thesis
  proof (cases reply)
    case (Inl e)
    with l1 l2 eq show ?thesis by (simp add: body_def same_view_def)
  next
    case (Inr r)
    show ?thesis
    proof (cases "items r")
      case None
      with l1 l2 eq Inr show ?thesis by (simp add: body_def same_view_def)
    next
      case (Some its)
      obtain ids x where fi: "for_items its (video_ids s2) = (ids, x :: 'b exn option)"
        by (cases "for_items its (video_ids s2) :: string list \<times> 'b exn option")
      with l1 l2 eq Inr Some show ?thesis
        by (cases x) (simp_all add: body_def same_view_def Let_def)
    qed
  qed
qed

lemma frame_at_same_view:
  assumes "\<forall>w t. fst (lp1 w t) = f t" and "\<forall>w t. fst (lp2 w t) = f t"
  shows "same_view s1 s2 \<Longrightarrow> frame_at lp1 n s1 = Some a \<Longrightarrow>
           \<exists>b. frame_at lp2 n s2 = Some b \<and> same_view a b"
proof (induction n arbitrary: s1 s2)
  case 0
  then show ?case by simp
next
  case (Suc n)
  from Suc.prems(2) obtain a1 where b1: "body lp1 s1 = Continue a1"
    and f: "frame_at lp1 n a1 = Some a"
    by (auto split: flow.splits)
  have "fst (lp1 (world s1) (next_page_token s1)) = fst (lp2 (world s2) (next_page_token s2))"
    using assms Suc.prems(1) by (simp add: same_view_def)
  from body_same_view [of s1 s2 lp1 lp2, OF Suc.prems(1) this] b1 obtain b1' where
    b2: "body lp2 s2 = Continue b1'" and sv: "same_view a1 b1'" by auto
  from Suc.IH [OF sv f] obtain b where "frame_at lp2 n b1' = Some b" "same_view a b" by blast
  with b2 show ?case by simp
qed

lemma while_True_same_view:
  assumes "\<forall>w t. fst (lp1 w t) = f t" and "\<forall>w t. fst (lp2 w t) = f t"
    and "same_view s1 s2" and "while_True lp1 s1 = Some e1"
  shows "\<exists>e2. while_True lp2 s2 = Some e2 \<and> observed e1 = observed e2"
proof -
  from while_True_Some_D [OF assms(4)] obtain n a where
    f1: "frame_at lp1 n s1 = Some a" and e1: "ending_of (body lp1 a) = Some e1" by blast
  from frame_at_same_view [OF assms(1,2,3) f1] obtain b where
    f2: "frame_at lp2 n s2 = Some b" and sv: "same_view a b" by blast
  have "fst (lp1 (world a) (next_page_token a)) = fst (lp2 (world b) (next_page_token b))"
    using assms(1,2) sv by (simp add: same_view_def)
  from body_same_view [of a b lp1 lp2, OF sv this] e1
  obtain e2 where e2: "ending_of (body lp2 b) = Some e2" and o: "observed e1 = observed e2"
    by (cases "body lp1 a") (auto simp: observed_def same_view_def)
  from e2 have "while_True lp2 b = Some e2" by (rule while_True_ending)
  with while_True_frame_at [OF f2] o show ?thesis by simp
qed

lemma same_view_sym: "same_view s1 s2 \<Longrightarrow> same_view s2 s1"
  by (simp add: same_view_def)

lemma body_counting_two_pages:
  "body (counting two_pages) s =
     (if next_page_token s = None
      then Continue (s\<lparr>video_ids := video_ids s @ [''a'', ''b''], next_page_token := Some ''t1'',
             world := Suc (world s),
             calls := calls s @ [(next_page_token s, Inr (response_of (Page [''a'', ''b''] (Some ''t1''))))]\<rparr>)
      else Break (s\<lparr>video_ids := video_ids s @ [''c''], next_page_token := None,
             world := Suc (world s),
             calls := calls s @ [(next_page_token s, Inr (response_of (Page [''c''] None)))]\<rparr>))"
proof (cases "next_page_token s = None")
  case True
  then have "counting two_pages (world s) (next_page_token s)
      = (Inr (response_of (Page [''a'', ''b''] (Some ''t1''))), Suc (world s))"
    by (simp add: counting_def two_pages_def)
  from body_page [of "counting two_pages" s "Page [''a'', ''b''] (Some ''t1'')" "Suc (world s)", OF this]
  show ?thesis using True by (simp add: py_not_def)
next
  case False
  then have "counting two_pages (world s) (next_page_token s)
      = (Inr (response_of (Page [''c''] None)), Suc (world s))"
    by (auto simp: counting_def two_pages_def)
  from body_page [of "counting two_pages" s "Page [''c''] None" "Suc (world s)", OF this]
  show ?thesis using False by (auto simp: py_not_def)
qed

section \<open>The claims\<close>

subsection \<open>C1: all pages, in order, one call each\<close>

text \<open>
  C1, as amended. Take \<open>N\<close> pages of which the first \<open>N - 1\<close> each carry a non-empty
  continuation token and the last carries none or an empty one, and an upstream that
  answers the chain of calls with these pages. Then the script reaches its \<^verbatim>\<open>print\<close>
  with \<open>video_ids\<close> equal to the concatenation of the pages' identifiers, in page order
  and with the order inside each page kept, after exactly \<open>N\<close> calls, whose replies are
  the \<open>N\<close> pages in order.
\<close>

theorem collect_returns_all_pages:
  assumes "pages \<noteq> []"
    and "\<forall>p\<in>set (butlast pages). \<not> py_not (page_token p)"
    and "py_not (page_token (last pages))"
    and "answers list_page w None (serving pages)"
  shows "\<exists>s. collect list_page w = Some (Finished s)
           \<and> video_ids s = concat (map page_items pages)
           \<and> map snd (calls s) = serving pages
           \<and> length (calls s) = length pages"
  using assms by (rule run_of_pages)

text \<open>The scenario of two pages, \<open>a b\<close> with token \<open>t1\<close> and then \<open>c\<close> with no token.\<close>

theorem collect_returns_all_pages_witness:
  "[Page [''a'', ''b''] (Some ''t1''), Page [''c''] None] \<noteq> []
   \<and> \<not> py_not (Some ''t1'') \<and> py_not None
   \<and> answers (replay ()) (serving [Page [''a'', ''b''] (Some ''t1''), Page [''c''] None]) None
         (serving [Page [''a'', ''b''] (Some ''t1''), Page [''c''] None])
   \<and> (\<exists>s. collect (replay ()) (serving [Page [''a'', ''b''] (Some ''t1''), Page [''c''] None])
            = Some (Finished s)
          \<and> video_ids s = [''a'', ''b'', ''c'']
          \<and> map snd (calls s) = serving [Page [''a'', ''b''] (Some ''t1''), Page [''c''] None]
          \<and> length (calls s) = 2)"
  using collect_returns_all_pages
    [of "[Page [''a'', ''b''] (Some ''t1''), Page [''c''] None]" "replay ()"
        "serving [Page [''a'', ''b''] (Some ''t1''), Page [''c''] None]"]
  by (auto simp: serving_def response_of_def py_not_def)

text \<open>
  C1 as it is written asks of the first \<open>N - 1\<close> pages only that they carry a token. A
  first page whose token is the empty string carries one, and the page after it is
  never fetched: of the pages \<open>a\<close> (empty token) and \<open>b\<close> (no token) the script prints
  \<open>a\<close> alone, after one call.
\<close>

theorem collect_cut_short_by_empty_token:
  "page_token (Page [''a''] (Some '''')) \<noteq> None
   \<and> page_token (Page [''b''] None) = None
   \<and> answers (replay ()) (serving [Page [''a''] (Some ''''), Page [''b''] None]) None
         (serving [Page [''a''] (Some ''''), Page [''b''] None])
   \<and> collect (replay ()) (serving [Page [''a''] (Some ''''), Page [''b''] None])
       = Some (Finished \<lparr>video_ids = [''a''], next_page_token = Some '''',
                world = serving [Page [''b''] None],
                calls = [(None, Inr (response_of (Page [''a''] (Some ''''))))]\<rparr>)
   \<and> concat (map page_items [Page [''a''] (Some ''''), Page [''b''] None]) = [''a'', ''b'']"
  by (simp add: collect_def initial_def serving_def while_True.simps
      body_replay_page py_not_def response_of_def [symmetric])

subsection \<open>C2: a failing call ends the run with its exception\<close>



subsection \<open>C3: when the loop ends\<close>

text \<open>
  C3, as amended. The script reaches its \<^verbatim>\<open>print\<close> if and only if the upstream, answering
  the chain of calls with pages, at some point returns a page whose token is absent or
  empty. The loop has no bound of its own: against an upstream that answers every call
  with a page carrying a non-empty token the script never ends, and after any number
  \<open>n\<close> of passes it is about to start another one, \<open>n\<close> calls made.
\<close>

theorem collect_finishes_iff:
  "((\<exists>s. collect list_page w = Some (Finished s)) \<longleftrightarrow>
      (\<exists>pages. pages \<noteq> [] \<and> answers list_page w None (serving pages)
         \<and> py_not (page_token (last pages))))
   \<and> ((\<forall>w t. \<exists>p w'. list_page w t = (Inr (response_of p), w') \<and> \<not> py_not (page_token p)) \<longrightarrow>
        collect list_page w = None
        \<and> (\<forall>n. \<exists>s. frame_at list_page n (initial w) = Some s \<and> length (calls s) = n))"
proof (intro conjI iffI impI allI)
  assume "\<exists>s. collect list_page w = Some (Finished s)"
  then obtain s where "while_True list_page (initial w) = Some (Finished s)"
    by (auto simp: collect_def)
  from finished_pages [OF this]
  show "\<exists>pages. pages \<noteq> [] \<and> answers list_page w None (serving pages)
         \<and> py_not (page_token (last pages))"
    by (auto simp: initial_def)
next
  assume "\<exists>pages. pages \<noteq> [] \<and> answers list_page w None (serving pages)
         \<and> py_not (page_token (last pages))"
  then obtain pages where "pages \<noteq> []" and "answers list_page w None (serving pages)"
    and "py_not (page_token (last pages))"
    by blast
  with answers_finishes [of pages list_page "initial w"]
  show "\<exists>s. collect list_page w = Some (Finished s)"
    by (simp add: collect_def initial_def)
next
  assume H: "\<forall>w t. \<exists>p w'. list_page w t = (Inr (response_of p), w') \<and> \<not> py_not (page_token p)"
  show "collect list_page w = None"
  proof (rule ccontr)
    assume "collect list_page w \<noteq> None"
    then obtain e where "while_True list_page (initial w) = Some e"
      by (auto simp: collect_def)
    from while_True_Some_D [OF this] obtain n s' where
      f: "frame_at list_page n (initial w) = Some s'"
      and e: "ending_of (body list_page s') = Some e" by blast
    from frame_at_always_token [OF H, of n "initial w"] f
    have "ending_of (body list_page s') = None" by simp
    with e show False by simp
  qed
next
  fix n
  assume H: "\<forall>w t. \<exists>p w'. list_page w t = (Inr (response_of p), w') \<and> \<not> py_not (page_token p)"
  from frame_at_always_token [OF H, of n "initial w"]
  show "\<exists>s. frame_at list_page n (initial w) = Some s \<and> length (calls s) = n"
    by (auto simp: initial_def)
qed

text \<open>
  The two-page scenario reaches the \<^verbatim>\<open>print\<close>; an upstream that always returns the page
  \<open>a\<close> with token \<open>t1\<close> keeps the loop going, for instance through five passes.
\<close>

theorem collect_finishes_iff_witness:
  "(\<exists>s. collect (replay ()) (serving [Page [''a'', ''b''] (Some ''t1''), Page [''c''] None])
          = Some (Finished s))
   \<and> collect (always (Inr (response_of (Page [''a''] (Some ''t1''))) :: string + response)) ()
       = None
   \<and> (\<exists>s. frame_at (always (Inr (response_of (Page [''a''] (Some ''t1''))) :: string + response))
              5 (initial ()) = Some s
          \<and> length (calls s) = 5)"
proof -
  let ?pages = "[Page [''a'', ''b''] (Some ''t1''), Page [''c''] None]"
  let ?up = "always (Inr (response_of (Page [''a''] (Some ''t1''))) :: string + response)"
  have "?pages \<noteq> [] \<and> answers (replay ()) (serving ?pages) None (serving ?pages)
      \<and> py_not (page_token (last ?pages))"
    by (simp add: serving_def response_of_def py_not_def)
  then have "\<exists>pages. pages \<noteq> [] \<and> answers (replay ()) (serving ?pages) None (serving pages)
      \<and> py_not (page_token (last pages))"
    by (rule exI)
  then have 1: "\<exists>s. collect (replay ()) (serving ?pages) = Some (Finished s)"
    using collect_finishes_iff [of "replay ()" "serving ?pages"] by blast
  have "\<forall>(w :: unit) t. \<exists>p w'. ?up w t = (Inr (response_of p), w') \<and> \<not> py_not (page_token p)"
  proof (intro allI)
    fix w :: unit and t :: "string option"
    have "?up w t = (Inr (response_of (Page [''a''] (Some ''t1''))), w)
        \<and> \<not> py_not (page_token (Page [''a''] (Some ''t1'')))"
      by (simp add: always_def py_not_def)
    then show "\<exists>p w'. ?up w t = (Inr (response_of p), w') \<and> \<not> py_not (page_token p)"
      by blast
  qed
  then have 2: "collect ?up () = None
      \<and> (\<forall>n. \<exists>s. frame_at ?up n (initial ()) = Some s \<and> length (calls s) = n)"
    using collect_finishes_iff [of ?up "()"] by blast
  from 1 2 show ?thesis by blast
qed

text \<open>
  C3 as it is written fails where the token is present and empty: an upstream that
  answers every call with a page carrying the token \<open>''\<close> returns a continuation token
  on every call and never a page without one, and the script ends after its first
  call.
\<close>

theorem collect_ends_on_empty_tokens:
  "page_token (Page [] (Some '''')) \<noteq> None
   \<and> always (Inr (response_of (Page [] (Some ''''))) :: string + response) () None
       = (Inr (response_of (Page [] (Some ''''))), ())
   \<and> always (Inr (response_of (Page [] (Some ''''))) :: string + response) () (Some '''')
       = (Inr (response_of (Page [] (Some ''''))), ())
   \<and> collect (always (Inr (response_of (Page [] (Some ''''))) :: string + response)) ()
       = Some (Finished \<lparr>video_ids = [], next_page_token = Some '''', world = (),
                calls = [(None, Inr (response_of (Page [] (Some ''''))))]\<rparr>)"
  by (simp add: always_def collect_def initial_def while_True.simps body_always py_not_def)

subsection \<open>C4: each call passes the token of the page before it\<close>



subsection \<open>C5: duplicates are kept\<close>

text \<open>
  C5. Nothing is filtered out of the pages collected: when the upstream serves the
  pages of a run (non-empty tokens on all but the last, none or an empty one on the
  last), the script prints a list in which every identifier occurs as many times as it
  occurs in all the pages together, and whose length is the sum of the pages' lengths.
  Two pages that both contain \<open>abc\<close> once give \<open>abc\<close> twice.
\<close>

theorem collect_keeps_duplicates:
  assumes "pages \<noteq> []"
    and "\<forall>p\<in>set (butlast pages). \<not> py_not (page_token p)"
    and "py_not (page_token (last pages))"
    and "answers list_page w None (serving pages)"
  shows "\<exists>s. collect list_page w = Some (Finished s)
           \<and> (\<forall>x. count_list (video_ids s) x = (\<Sum>p\<leftarrow>pages. count_list (page_items p) x))
           \<and> length (video_ids s) = (\<Sum>p\<leftarrow>pages. length (page_items p))"
proof -
  from run_of_pages [OF assms] obtain s where
    run: "collect list_page w = Some (Finished s)"
    and v: "video_ids s = concat (map page_items pages)"
    by blast
  from v have "\<forall>x. count_list (video_ids s) x = (\<Sum>p\<leftarrow>pages. count_list (page_items p) x)"
    by (simp add: count_list_concat comp_def)
  moreover from v have "length (video_ids s) = (\<Sum>p\<leftarrow>pages. length (page_items p))"
    by (simp add: length_concat comp_def)
  ultimately show ?thesis using run by blast
qed

text \<open>Two pages, \<open>abc x\<close> and \<open>abc\<close>: the list printed holds \<open>abc\<close> twice.\<close>

theorem collect_keeps_duplicates_witness:
  "[Page [''abc'', ''x''] (Some ''t1''), Page [''abc''] None] \<noteq> []
   \<and> \<not> py_not (Some ''t1'') \<and> py_not None
   \<and> answers (replay ()) (serving [Page [''abc'', ''x''] (Some ''t1''), Page [''abc''] None]) None
         (serving [Page [''abc'', ''x''] (Some ''t1''), Page [''abc''] None])
   \<and> (\<exists>s. collect (replay ()) (serving [Page [''abc'', ''x''] (Some ''t1''), Page [''abc''] None])
            = Some (Finished s)
          \<and> count_list (video_ids s) ''abc'' = 2
          \<and> length (video_ids s) = 3)"
proof -
  let ?pages = "[Page [''abc'', ''x''] (Some ''t1''), Page [''abc''] None]"
  have h: "?pages \<noteq> []" "\<forall>p\<in>set (butlast ?pages). \<not> py_not (page_token p)"
    "py_not (page_token (last ?pages))"
    "answers (replay ()) (serving ?pages) None (serving ?pages)"
    by (simp_all add: serving_def response_of_def py_not_def)
  from collect_keeps_duplicates [OF h] obtain s where
    "collect (replay ()) (serving ?pages) = Some (Finished s)"
    and c: "\<forall>x. count_list (video_ids s) x = (\<Sum>p\<leftarrow>?pages. count_list (page_items p) x)"
    and "length (video_ids s) = (\<Sum>p\<leftarrow>?pages. length (page_items p))"
    by blast
  moreover from c have "count_list (video_ids s) ''abc'' = 2" by simp
  ultimately have "collect (replay ()) (serving ?pages) = Some (Finished s)
      \<and> count_list (video_ids s) ''abc'' = 2 \<and> length (video_ids s) = 3"
    by simp
  then have "\<exists>s. collect (replay ()) (serving ?pages) = Some (Finished s)
      \<and> count_list (video_ids s) ''abc'' = 2 \<and> length (video_ids s) = 3"
    by (rule exI)
  with h(1,4) show ?thesis by (simp add: py_not_def)
qed

subsection \<open>C6: a first page without token\<close>

text \<open>
  C6. When the first reply is a page with no continuation token, the script makes this
  one call and prints exactly the identifiers of that page. For a page with no items
  and no token it prints the empty list after one call.
\<close>

theorem single_page_single_call:
  assumes "list_page w None = (Inr (response_of p), w')"
    and "page_token p = None"
  shows "collect list_page w =
           Some (Finished \<lparr>video_ids = page_items p, next_page_token = None, world = w',
                   calls = [(None, Inr (response_of p))]\<rparr>)"
proof -
  have "list_page (world (initial w)) (next_page_token (initial w)) = (Inr (response_of p), w')"
    using assms(1) by (simp add: initial_def)
  from body_page [of list_page "initial w" p w', OF this] have "body list_page (initial w) =
      Break \<lparr>video_ids = page_items p, next_page_token = None, world = w',
                   calls = [(None, Inr (response_of p))]\<rparr>"
    using assms(2) by (simp add: initial_def py_not_def)
  then show ?thesis by (simp add: collect_def while_True_ending)
qed

text \<open>An upstream whose reply is always the page with no items and no token.\<close>

theorem single_page_single_call_witness:
  "always (Inr (response_of (Page [] None)) :: string + response) () None
     = (Inr (response_of (Page [] None)), ())
   \<and> page_token (Page [] None) = None
   \<and> collect (always (Inr (response_of (Page [] None)) :: string + response)) () =
           Some (Finished \<lparr>video_ids = [], next_page_token = None, world = (),
                   calls = [(None, Inr (response_of (Page [] None)))]\<rparr>)"
  using single_page_single_call [of "always (Inr (response_of (Page [] None)))" "()" "Page [] None" "()"]
  by (simp add: always_def)

subsection \<open>C7: nothing after the final page\<close>

text \<open>
  C7, as amended. Every call that was followed by another call had been answered with a
  page carrying a non-empty token; so once a page arrives whose token is absent or
  empty, the capability is not called again in that run. A pass goes on to another
  pass exactly when its reply is a page with a non-empty token, and breaks out of the
  loop exactly when its reply is a page whose token is absent or empty; a break ends
  the run in the frame that pass left, with no further call.
\<close>

theorem no_call_after_final_page:
  "((frame_at list_page n (initial w) = Some s
       \<or> (\<exists>e. collect list_page w = Some e \<and> s = last_frame e)) \<longrightarrow>
      (\<forall>i. Suc i < length (calls s) \<longrightarrow>
         (\<exists>p. snd (calls s ! i) = Inr (response_of p) \<and> \<not> py_not (page_token p))))
   \<and> ((\<exists>s1. body list_page s0 = Continue s1) \<longleftrightarrow>
        (\<exists>p w'. list_page (world s0) (next_page_token s0) = (Inr (response_of p), w')
           \<and> \<not> py_not (page_token p)))
   \<and> ((\<exists>s1. body list_page s0 = Break s1) \<longleftrightarrow>
        (\<exists>p w'. list_page (world s0) (next_page_token s0) = (Inr (response_of p), w')
           \<and> py_not (page_token p)))
   \<and> (body list_page s0 = Break s1 \<longrightarrow> while_True list_page s0 = Some (Finished s1))"
proof (intro conjI)
  show "(frame_at list_page n (initial w) = Some s
       \<or> (\<exists>e. collect list_page w = Some e \<and> s = last_frame e)) \<longrightarrow>
      (\<forall>i. Suc i < length (calls s) \<longrightarrow>
         (\<exists>p. snd (calls s ! i) = Inr (response_of p) \<and> \<not> py_not (page_token p)))"
    by (rule impI) (rule run_replies)
next
  show "(\<exists>s1. body list_page s0 = Continue s1) \<longleftrightarrow>
        (\<exists>p w'. list_page (world s0) (next_page_token s0) = (Inr (response_of p), w')
           \<and> \<not> py_not (page_token p))"
  proof
    assume "\<exists>s1. body list_page s0 = Continue s1"
    then obtain s1 where "body list_page s0 = Continue s1" by blast
    from body_Continue_D [OF this]
    show "\<exists>p w'. list_page (world s0) (next_page_token s0) = (Inr (response_of p), w')
           \<and> \<not> py_not (page_token p)" by blast
  next
    assume "\<exists>p w'. list_page (world s0) (next_page_token s0) = (Inr (response_of p), w')
           \<and> \<not> py_not (page_token p)"
    then obtain p w' where lp: "list_page (world s0) (next_page_token s0) = (Inr (response_of p), w')"
      and "\<not> py_not (page_token p)" by blast
    with body_page [of list_page s0 p w', OF lp]
    show "\<exists>s1. body list_page s0 = Continue s1" by simp
  qed
next
  show "(\<exists>s1. body list_page s0 = Break s1) \<longleftrightarrow>
        (\<exists>p w'. list_page (world s0) (next_page_token s0) = (Inr (response_of p), w')
           \<and> py_not (page_token p))"
  proof
    assume "\<exists>s1. body list_page s0 = Break s1"
    then obtain s1 where "body list_page s0 = Break s1" by blast
    from body_Break_D [OF this]
    show "\<exists>p w'. list_page (world s0) (next_page_token s0) = (Inr (response_of p), w')
           \<and> py_not (page_token p)" by blast
  next
    assume "\<exists>p w'. list_page (world s0) (next_page_token s0) = (Inr (response_of p), w')
           \<and> py_not (page_token p)"
    then obtain p w' where lp: "list_page (world s0) (next_page_token s0) = (Inr (response_of p), w')"
      and "py_not (page_token p)" by blast
    with body_page [of list_page s0 p w', OF lp]
    show "\<exists>s1. body list_page s0 = Break s1" by simp
  qed
next
  show "body list_page s0 = Break s1 \<longrightarrow> while_True list_page s0 = Some (Finished s1)"
    by (simp add: while_True_ending)
qed

text \<open>
  The two-page scenario: the first pass goes on, the second breaks and ends the run,
  and the one call that was followed by another had returned the token \<open>t1\<close>.
\<close>

theorem no_call_after_final_page_witness:
  "(\<exists>s1. body (replay ()) (initial (serving [Page [''a'', ''b''] (Some ''t1''), Page [''c''] None]))
           = Continue s1)
   \<and> body (replay ())
        \<lparr>video_ids = [''a'', ''b''], next_page_token = Some ''t1'',
           world = serving [Page [''c''] None],
           calls = [(None, Inr (response_of (Page [''a'', ''b''] (Some ''t1''))))]\<rparr>
      = Break \<lparr>video_ids = [''a'', ''b'', ''c''], next_page_token = None, world = [],
           calls = [(None, Inr (response_of (Page [''a'', ''b''] (Some ''t1'')))),
                    (Some ''t1'', Inr (response_of (Page [''c''] None)))]\<rparr>
   \<and> while_True (replay ())
        \<lparr>video_ids = [''a'', ''b''], next_page_token = Some ''t1'',
           world = serving [Page [''c''] None],
           calls = [(None, Inr (response_of (Page [''a'', ''b''] (Some ''t1''))))]\<rparr>
      = Some (Finished \<lparr>video_ids = [''a'', ''b'', ''c''], next_page_token = None, world = [],
           calls = [(None, Inr (response_of (Page [''a'', ''b''] (Some ''t1'')))),
                    (Some ''t1'', Inr (response_of (Page [''c''] None)))]\<rparr>)
   \<and> (\<exists>p. snd ([(None, Inr (response_of (Page [''a'', ''b''] (Some ''t1''))) :: unit + response),
                  (Some ''t1'', Inr (response_of (Page [''c''] None)))] ! 0) = Inr (response_of p)
          \<and> \<not> py_not (page_token p))"
proof -
  let ?w = "serving [Page [''a'', ''b''] (Some ''t1''), Page [''c''] None] :: (unit + response) list"
  let ?s1 = "\<lparr>video_ids = [''a'', ''b''], next_page_token = Some ''t1'',
      world = serving [Page [''c''] None] :: (unit + response) list,
      calls = [(None, Inr (response_of (Page [''a'', ''b''] (Some ''t1''))) :: unit + response)]\<rparr>"
  let ?s = "\<lparr>video_ids = [''a'', ''b'', ''c''], next_page_token = None,
      world = [] :: (unit + response) list,
      calls = [(None, Inr (response_of (Page [''a'', ''b''] (Some ''t1''))) :: unit + response),
               (Some ''t1'', Inr (response_of (Page [''c''] None)))]\<rparr>"
  note t = no_call_after_final_page [of "replay ()" 0 ?w ?s ?s1 ?s]
  have run: "collect (replay ()) ?w = Some (Finished ?s)"
    by (simp add: collect_def initial_def serving_def while_True.simps body_replay_page py_not_def)
  have brk: "body (replay ()) ?s1 = Break ?s"
    by (simp add: serving_def body_replay_page py_not_def)
  have "\<exists>p w'. replay () (world ?s1) (next_page_token ?s1) = (Inr (response_of p), w')
      \<and> py_not (page_token p)"
    by (rule exI [of _ "Page [''c''] None"]) (simp add: serving_def py_not_def)
  with t have "\<exists>s1. body (replay ()) ?s1 = Break s1" by blast
  from t brk have fin: "while_True (replay ()) ?s1 = Some (Finished ?s)" by blast
  have "\<exists>e. collect (replay ()) ?w = Some e \<and> ?s = last_frame e"
    using run by simp
  with t have "\<forall>i. Suc i < length (calls ?s) \<longrightarrow>
      (\<exists>p. snd (calls ?s ! i) = Inr (response_of p) \<and> \<not> py_not (page_token p))"
    by blast
  then have first: "\<exists>p. snd (calls ?s ! 0) = Inr (response_of p) \<and> \<not> py_not (page_token p)"
    by simp
  have go: "\<exists>s1. body (replay ()) (initial ?w) = Continue s1"
    by (simp add: initial_def serving_def body_replay_page py_not_def)
  from go brk fin first show ?thesis by simp
qed

text \<open>
  C7 as it is written leaves the loop only on an absent token. A page whose token is
  present and empty makes the pass break as well.
\<close>

theorem break_on_present_empty_token:
  "page_token (Page [''a''] (Some '''')) \<noteq> None
   \<and> body (always (Inr (response_of (Page [''a''] (Some ''''))) :: string + response)) (initial ())
       = Break \<lparr>video_ids = [''a''], next_page_token = Some '''', world = (),
           calls = [(None, Inr (response_of (Page [''a''] (Some ''''))))]\<rparr>"
  by (simp add: initial_def body_always py_not_def)

subsection \<open>C8: the accumulator and the effects of a run\<close>



subsection \<open>C9: the empty token\<close>

text \<open>
  C9. A page whose token is the empty string ends the run exactly as the same page
  without token does: in both cases the loop breaks in this pass with the page's
  identifiers appended, and the call that fetched the page is the last one, so the
  empty token is never passed on. The two runs differ only in the value left in
  \<open>next_page_token\<close> and in the reply recorded.
\<close>

theorem empty_token_ends_the_run:
  assumes "list_page (world s) (next_page_token s) = (Inr (response_of (Page ids (Some ''''))), w')"
    and "list_page0 (world s) (next_page_token s) = (Inr (response_of (Page ids None)), w')"
  shows "while_True list_page s =
           Some (Finished (s\<lparr>video_ids := video_ids s @ ids, next_page_token := Some '''',
                   world := w',
                   calls := calls s @ [(next_page_token s, Inr (response_of (Page ids (Some ''''))))]\<rparr>))
       \<and> while_True list_page0 s =
           Some (Finished (s\<lparr>video_ids := video_ids s @ ids, next_page_token := None,
                   world := w',
                   calls := calls s @ [(next_page_token s, Inr (response_of (Page ids None)))]\<rparr>))"
  using body_page [of list_page s "Page ids (Some [])" w', OF assms(1)]
    body_page [of list_page0 s "Page ids None" w', OF assms(2)]
  by (simp add: while_True_ending py_not_def)

theorem empty_token_ends_the_run_witness:
  "collect (always (Inr (response_of (Page [''a''] (Some ''''))) :: string + response)) () =
           Some (Finished \<lparr>video_ids = [''a''], next_page_token = Some '''', world = (),
                   calls = [(None, Inr (response_of (Page [''a''] (Some ''''))))]\<rparr>)
   \<and> collect (always (Inr (response_of (Page [''a''] None)) :: string + response)) () =
           Some (Finished \<lparr>video_ids = [''a''], next_page_token = None, world = (),
                   calls = [(None, Inr (response_of (Page [''a''] None)))]\<rparr>)"
  using empty_token_ends_the_run [of "always (Inr (response_of (Page [''a''] (Some ''''))))" "initial ()"
      "[''a'']" "()" "always (Inr (response_of (Page [''a''] None)))"]
  by (simp add: always_def collect_def initial_def)

subsection \<open>C10: the run is determined by the replies\<close>

text \<open>
  C10. Take two upstreams that both reply to a call as one function \<open>f\<close> of the token
  passed, whatever their states are and however these change. Then the two runs are
  observed alike: both go on for ever, or both end, in the same way (with the same
  list printed, or with the same exception) and with the same log of calls, hence the
  same number of calls. In particular two runs against one such upstream, started in
  any two of its states, agree.
\<close>

theorem collect_deterministic:
  fixes lp1 :: "('v, 'e) list_page" and lp2 :: "('w, 'e) list_page"
  assumes "\<forall>w t. fst (lp1 w t) = f t" and "\<forall>w t. fst (lp2 w t) = f t"
  shows "map_option observed (collect lp1 w1) = map_option observed (collect lp2 w2)"
proof -
  have sv: "same_view (initial w1 :: ('v, 'e) frame) (initial w2 :: ('w, 'e) frame)"
    by (simp add: same_view_def initial_def)
  show ?thesis
  proof (cases "collect lp1 w1")
    case None
    have "collect lp2 w2 = None"
    proof (rule ccontr)
      assume "collect lp2 w2 \<noteq> None"
      then obtain e2 where "while_True lp2 (initial w2) = Some e2"
        by (auto simp: collect_def)
      from while_True_same_view [OF assms(2,1) same_view_sym [OF sv] this] None
      show False by (simp add: collect_def)
    qed
    with None show ?thesis by simp
  next
    case (Some e1)
    then have "while_True lp1 (initial w1) = Some e1" by (simp add: collect_def)
    from while_True_same_view [OF assms sv this] Some show ?thesis
      by (auto simp: collect_def)
  qed
qed

text \<open>
  The two-page scenario as a function of the token, served by an upstream that counts
  its calls: started at count 0 or at count 7, the run is observed the same.
\<close>

theorem collect_deterministic_witness:
  "map_option observed (collect (counting two_pages) 0)
     = map_option observed (collect (counting two_pages) 7)
   \<and> map_option observed (collect (counting two_pages) 0)
     = Some (Inr [''a'', ''b'', ''c''],
          [(None, Inr (response_of (Page [''a'', ''b''] (Some ''t1'')))),
           (Some ''t1'', Inr (response_of (Page [''c''] None)))])"
proof -
  have pure: "\<forall>w t. fst (counting two_pages w t) = two_pages t"
    by (simp add: counting_def)
  have run: "collect (counting two_pages) 0
      = Some (Finished \<lparr>video_ids = [''a'', ''b'', ''c''], next_page_token = None, world = 2,
          calls = [(None, Inr (response_of (Page [''a'', ''b''] (Some ''t1'')))),
                   (Some ''t1'', Inr (response_of (Page [''c''] None)))]\<rparr>)"
    by (simp add: collect_def initial_def while_True.simps body_counting_two_pages py_not_def)
  from collect_deterministic [OF pure pure, of 0 7] run show ?thesis
    by (simp add: observed_def)
qed

end
